theory Spec2Isabelle
  imports Main "HOL-Library.FSet" "HOL-Library.Multiset"
begin

section \<open>The Minesweeper knowledge engine of minesweeper.py\<close>

text \<open>
  Cells are pairs of Python integers. A Python \<^verbatim>\<open>set\<close> is always finite, so it is an
  \<open>fset\<close>; \<^verbatim>\<open>len\<close> of a set is \<open>fcard\<close>. The knowledge base is a Python list of
  \<^verbatim>\<open>Sentence\<close> objects. Every object in it is created by \<^verbatim>\<open>add_knowledge\<close> and lives at
  one position of the list only, so the list of objects is modelled as the list of their
  values: mutating the object at a position is \<open>list_update\<close> at that position, and
  \<^verbatim>\<open>x in list\<close> and \<^verbatim>\<open>list.remove(x)\<close>, which compare with \<^verbatim>\<open>Sentence.__eq__\<close>, are
  membership by value and \<open>remove1\<close>.
\<close>

type_synonym cell = "int \<times> int"

subsection \<open>class Sentence\<close>

record sentence =
  cells :: "cell fset"
  count :: int

definition known_mines :: "sentence \<Rightarrow> cell fset" where
  "known_mines s =
     (if int (fcard (cells s)) = count s \<and> count s \<noteq> 0 then cells s else {||})"

definition known_safes :: "sentence \<Rightarrow> cell fset" where
  "known_safes s = (if count s = 0 then cells s else {||})"

text \<open>\<^verbatim>\<open>Sentence.mark_mine\<close> and \<^verbatim>\<open>Sentence.mark_safe\<close> (the engine has methods of the
  same names, modelled below as \<open>ai_mark_mine\<close> and \<open>ai_mark_safe\<close>).\<close>

definition mark_mine :: "sentence \<Rightarrow> cell \<Rightarrow> sentence" where
  "mark_mine s c =
     (if c |\<in>| cells s then s\<lparr>cells := cells s |-| {|c|}, count := count s - 1\<rparr> else s)"

definition mark_safe :: "sentence \<Rightarrow> cell \<Rightarrow> sentence" where
  "mark_safe s c = (if c |\<in>| cells s then s\<lparr>cells := cells s |-| {|c|}\<rparr> else s)"

subsection \<open>class MinesweeperAI\<close>

record ai =
  height :: int
  width :: int
  moves_made :: "cell fset"
  mines :: "cell fset"
  safes :: "cell fset"
  knowledge :: "sentence list"

definition init_ai :: "int \<Rightarrow> int \<Rightarrow> ai" where
  "init_ai h w =
     \<lparr>height = h, width = w, moves_made = {||}, mines = {||}, safes = {||}, knowledge = []\<rparr>"

subsubsection \<open>knowledge_update\<close>

text \<open>
  The body of the two nested \<^verbatim>\<open>for\<close> loops, for the outer sentence \<open>i\<close> (the value of the
  object fetched by the outer iterator) and the inner iterator's position \<open>jx\<close>. The state
  is the list and the flag \<^verbatim>\<open>breaker\<close>.
\<close>

definition pair_step :: "sentence \<Rightarrow> nat \<Rightarrow> sentence list \<times> bool \<Rightarrow> sentence list \<times> bool" where
  "pair_step i jx kb =
     (let k = fst kb; breaker = snd kb; j = k ! jx in
      if fcard (cells i) \<noteq> 0 \<and> fcard (cells j) \<noteq> 0 then
        (if cells i |\<subset>| cells j
         then (k[jx := j\<lparr>cells := cells j |-| cells i, count := count j - count i\<rparr>], False)
         else (k, breaker))
      else
        (let k1 = (if i \<in> set k \<and> fcard (cells i) = 0 then remove1 i k else k);
             k2 = (if j \<in> set k1 \<and> fcard (cells j) = 0 then remove1 j k1 else k1)
         in (k2, breaker)))"

lemma length_pair_step: "length (fst (pair_step i jx kb)) \<le> length (fst kb)"
  by (auto simp: pair_step_def Let_def length_remove1 split: if_splits)

text \<open>
  A Python list iterator holds an index into the list: each step compares it with the
  current length, fetches the element there and advances. Removals during the loop shift
  the later elements down, so the iterator skips the element that moves into a removed
  position.
\<close>

function inner_loop :: "sentence \<Rightarrow> nat \<Rightarrow> sentence list \<times> bool \<Rightarrow> sentence list \<times> bool" where
  "inner_loop i jx kb =
     (if jx < length (fst kb) then inner_loop i (Suc jx) (pair_step i jx kb) else kb)"
  by pat_completeness auto
termination
proof (relation "measure (\<lambda>(i, jx, kb). length (fst kb) - jx)")
  show "wf (measure (\<lambda>(i, jx, kb). length (fst kb) - jx))" by simp
next
  fix i :: sentence and jx :: nat and kb :: "sentence list \<times> bool"
  assume "jx < length (fst kb)"
  moreover have "length (fst (pair_step i jx kb)) \<le> length (fst kb)"
    by (rule length_pair_step)
  ultimately show "((i, Suc jx, pair_step i jx kb), (i, jx, kb))
      \<in> measure (\<lambda>(i, jx, kb). length (fst kb) - jx)"
    by simp
qed

declare inner_loop.simps [simp del]

lemma length_inner_loop: "length (fst (inner_loop i jx kb)) \<le> length (fst kb)"
proof (induction i jx kb rule: inner_loop.induct)
  case (1 i jx kb)
  show ?case
  proof (cases "jx < length (fst kb)")
    case True
    then have "length (fst (inner_loop i jx kb))
        \<le> length (fst (pair_step i jx kb))"
      using "1.IH" by (simp add: inner_loop.simps [of i jx kb])
    then show ?thesis using length_pair_step [of i jx kb] by linarith
  next
    case False
    then show ?thesis by (simp add: inner_loop.simps [of i jx kb])
  qed
qed

function outer_loop :: "nat \<Rightarrow> sentence list \<times> bool \<Rightarrow> sentence list \<times> bool" where
  "outer_loop ix kb =
     (if ix < length (fst kb) then outer_loop (Suc ix) (inner_loop (fst kb ! ix) 0 kb) else kb)"
  by pat_completeness auto
termination
proof (relation "measure (\<lambda>(ix, kb). length (fst kb) - ix)")
  show "wf (measure (\<lambda>(ix, kb). length (fst kb) - ix))" by simp
next
  fix ix :: nat and kb :: "sentence list \<times> bool"
  assume "ix < length (fst kb)"
  moreover have "length (fst (inner_loop (fst kb ! ix) 0 kb)) \<le> length (fst kb)"
    by (rule length_inner_loop)
  ultimately show "((Suc ix, inner_loop (fst kb ! ix) 0 kb), (ix, kb))
      \<in> measure (\<lambda>(ix, kb). length (fst kb) - ix)"
    by simp
qed

declare outer_loop.simps [simp del]

text \<open>
  The \<^verbatim>\<open>while True\<close> loop: one pass of the nested loops with \<^verbatim>\<open>breaker\<close> set, then
  \<^verbatim>\<open>break\<close> if no pass step cleared it. Not returning is the value \<open>None\<close>. (The
  record package already uses the name \<open>knowledge_update\<close> for the update of the field
  \<open>knowledge\<close>, so the method carries the suffix \<open>_loop\<close>.)
\<close>

partial_function (option) knowledge_update_loop :: "ai \<Rightarrow> ai option" where
  "knowledge_update_loop st =
     (let kb = outer_loop 0 (knowledge st, True) in
      if snd kb then Some (st\<lparr>knowledge := fst kb\<rparr>)
      else knowledge_update_loop (st\<lparr>knowledge := fst kb\<rparr>))"

declare knowledge_update_loop.simps [code]

subsubsection \<open>mark_mine, mark_safe\<close>

definition ai_mark_mine :: "ai \<Rightarrow> cell \<Rightarrow> ai" where
  "ai_mark_mine st c =
     st\<lparr>mines := finsert c (mines st), knowledge := map (\<lambda>s. mark_mine s c) (knowledge st)\<rparr>"

definition ai_mark_safe :: "ai \<Rightarrow> cell \<Rightarrow> ai" where
  "ai_mark_safe st c =
     st\<lparr>safes := finsert c (safes st), knowledge := map (\<lambda>s. mark_safe s c) (knowledge st)\<rparr>"

subsubsection \<open>add_knowledge\<close>

text \<open>\<^verbatim>\<open>range(a, b)\<close> over Python integers.\<close>

definition range_int :: "int \<Rightarrow> int \<Rightarrow> int list" where
  "range_int a b = [a..b - 1]"

text \<open>The loops that fill \<^verbatim>\<open>nearby_cells\<close>.\<close>

definition nearby_cells :: "ai \<Rightarrow> cell \<Rightarrow> cell fset" where
  "nearby_cells st c =
     fold (\<lambda>i acc.
        fold (\<lambda>j acc.
           if 0 \<le> i \<and> i < height st \<and> 0 \<le> j \<and> j < width st \<and> (i, j) \<noteq> c
           then finsert (i, j) acc else acc)
          (range_int (snd c - 1) (snd c + 2)) acc)
       (range_int (fst c - 1) (fst c + 2)) {||}"

text \<open>The last loop of \<^verbatim>\<open>add_knowledge\<close>: the facts of every sentence are merged into
  \<^verbatim>\<open>safes\<close> and \<^verbatim>\<open>mines\<close>.\<close>

definition extract_facts :: "ai \<Rightarrow> ai" where
  "extract_facts st =
     fold (\<lambda>s a. a\<lparr>safes := safes a |\<union>| known_safes s, mines := mines a |\<union>| known_mines s\<rparr>)
       (knowledge st) st"

definition add_knowledge :: "ai \<Rightarrow> cell \<Rightarrow> int \<Rightarrow> ai option" where
  "add_knowledge st c n =
     (let st1 = ai_mark_safe (st\<lparr>moves_made := finsert c (moves_made st)\<rparr>) c;
          nearby = nearby_cells st1 c;
          nearby_unknown = nearby |-| moves_made st1 |-| mines st1 |-| safes st1;
          nearby_unknown_count = n - int (fcard (nearby |\<inter>| mines st1))
      in if fcard nearby_unknown > 0
         then map_option extract_facts
                (knowledge_update_loop
                   (st1\<lparr>knowledge := knowledge st1 @
                      [\<lparr>cells = nearby_unknown, count = nearby_unknown_count\<rparr>]\<rparr>))
         else Some (extract_facts st1))"

subsubsection \<open>make_safe_move\<close>

text \<open>
  The loop runs over the set \<^verbatim>\<open>self.safes\<close> in the order Python's set iterator gives,
  which the language leaves open: the order is the parameter \<open>order\<close>, a list of the
  elements of \<open>safes\<close>. The result is the returned move (\<open>None\<close> for Python's \<^verbatim>\<open>None\<close>) and
  the state after the call.
\<close>

definition make_safe_move :: "cell list \<Rightarrow> ai \<Rightarrow> cell option \<times> ai" where
  "make_safe_move order st =
     (find (\<lambda>move. move |\<notin>| moves_made st \<and> move |\<in>| safes st) order, st)"

section \<open>Sentence facts\<close>

text \<open>
  C7: \<open>known_mines\<close> returns the cells exactly when the count equals the number of cells and
  is nonzero, and the empty set otherwise; \<open>known_safes\<close> returns the cells exactly when the
  count is zero (also when there are no cells), and the empty set otherwise.
\<close>

theorem known_mines_safes_spec:
  "known_mines s = (if count s = int (fcard (cells s)) \<and> count s \<noteq> 0 then cells s else {||})
   \<and> known_safes s = (if count s = 0 then cells s else {||})
   \<and> known_safes \<lparr>cells = {||}, count = 0\<rparr> = {||}"
  by (auto simp: known_mines_def known_safes_def)

section \<open>Invariants of one pass of knowledge_update\<close>

lemma inner_loop_invariant:
  assumes step: "\<And>jx kb. I kb \<Longrightarrow> jx < length (fst kb) \<Longrightarrow> I (pair_step i jx kb)"
    and init: "I kb"
  shows "I (inner_loop i jx kb)"
  using step init
proof (induction i jx kb rule: inner_loop.induct)
  case (1 i jx kb)
  show ?case
  proof (cases "jx < length (fst kb)")
    case True
    have "I (pair_step i jx kb)" using "1.prems" True by simp
    then have "I (inner_loop i (Suc jx) (pair_step i jx kb))"
      using "1.IH" [OF True] "1.prems"(1) by simp
    then show ?thesis using True by (simp add: inner_loop.simps [of i jx kb])
  next
    case False
    then show ?thesis using "1.prems" by (simp add: inner_loop.simps [of i jx kb])
  qed
qed

lemma outer_loop_invariant:
  assumes step: "\<And>ix kb. I kb \<Longrightarrow> ix < length (fst kb) \<Longrightarrow> I (inner_loop (fst kb ! ix) 0 kb)"
    and init: "I kb"
  shows "I (outer_loop ix kb)"
  using init
proof (induction ix kb rule: outer_loop.induct)
  case (1 ix kb)
  show ?case
  proof (cases "ix < length (fst kb)")
    case True
    have "I (inner_loop (fst kb ! ix) 0 kb)" using "1.prems" True by (rule step)
    then have "I (outer_loop (Suc ix) (inner_loop (fst kb ! ix) 0 kb))"
      using "1.IH" [OF True] by simp
    then show ?thesis using True by (simp add: outer_loop.simps [of ix kb])
  next
    case False
    then show ?thesis using "1.prems" by (simp add: outer_loop.simps [of ix kb])
  qed
qed

text \<open>One invariant rule for a whole pass: \<open>I\<close> is the invariant of the list and the flag,
  \<open>R i\<close> what is known of the outer sentence while the inner loop runs.\<close>

lemma pass_invariant:
  assumes fetch: "\<And>ix kb. I kb \<Longrightarrow> ix < length (fst kb) \<Longrightarrow> R (fst kb ! ix) kb"
    and step: "\<And>i jx kb. I kb \<Longrightarrow> R i kb \<Longrightarrow> jx < length (fst kb)
                 \<Longrightarrow> I (pair_step i jx kb) \<and> R i (pair_step i jx kb)"
    and init: "I kb"
  shows "I (outer_loop ix kb)"
proof (rule outer_loop_invariant [where I = I, OF _ init])
  fix ix kb
  assume I: "I kb" and ix: "ix < length (fst kb)"
  define i where "i = fst kb ! ix"
  have R: "R i kb" unfolding i_def by (rule fetch [OF I ix])
  have "I (inner_loop i 0 kb) \<and> R i (inner_loop i 0 kb)"
  proof (rule inner_loop_invariant [where I = "\<lambda>kb'. I kb' \<and> R i kb'"])
    show "I kb \<and> R i kb" using I R by simp
  next
    fix jx kb'
    assume "I kb' \<and> R i kb'" and "jx < length (fst kb')"
    then show "I (pair_step i jx kb') \<and> R i (pair_step i jx kb')"
      using step [of kb' i jx] by simp
  qed
  then show "I (inner_loop (fst kb ! ix) 0 kb)" unfolding i_def ..
qed

section \<open>Termination of knowledge_update\<close>

text \<open>The number of cells over all sentences of the list.\<close>

definition total_cells :: "sentence list \<Rightarrow> nat" where
  "total_cells k = sum_list (map (\<lambda>s. fcard (cells s)) k)"

text \<open>A pass never raises the cell total, and clearing \<^verbatim>\<open>breaker\<close> costs at least one cell.\<close>

definition potential :: "sentence list \<times> bool \<Rightarrow> nat" where
  "potential kb = total_cells (fst kb) + (if snd kb then 0 else 1)"

lemma total_cells_remove1: "total_cells (remove1 x k) \<le> total_cells k"
  by (induction k) (auto simp: total_cells_def)

lemma total_cells_update:
  assumes "jx < length k" and "fcard (cells x) < fcard (cells (k ! jx))"
  shows "total_cells (k[jx := x]) < total_cells k"
  using assms
proof (induction k arbitrary: jx)
  case Nil
  then show ?case by simp
next
  case (Cons a k)
  then show ?case by (cases jx) (auto simp: total_cells_def)
qed

lemma fcard_reduce:
  assumes "A \<noteq> {||}" and "A |\<subset>| B"
  shows "fcard (B |-| A) < fcard B"
proof -
  have "B |-| A |\<subset>| B" using assms by auto
  then show ?thesis by (rule pfsubset_fcard_mono)
qed

text \<open>Two names for the two effects of the loop body: \<open>reduce i j\<close> is the sentence \<open>j\<close>
  after \<^verbatim>\<open>j.cells -= i.cells; j.count -= i.count\<close>, and \<open>prune x k\<close> is the list after
  \<^verbatim>\<open>if x in knowledge and len(x.cells) == 0: knowledge.remove(x)\<close>.\<close>

definition prune :: "sentence \<Rightarrow> sentence list \<Rightarrow> sentence list" where
  "prune x k = (if cells x = {||} then remove1 x k else k)"

definition reduce :: "sentence \<Rightarrow> sentence \<Rightarrow> sentence" where
  "reduce i j = j\<lparr>cells := cells j |-| cells i, count := count j - count i\<rparr>"

lemma pair_step_eq:
  "pair_step i jx (k, b) =
     (if cells i \<noteq> {||} \<and> cells (k ! jx) \<noteq> {||}
      then (if cells i |\<subset>| cells (k ! jx) then (k[jx := reduce i (k ! jx)], False) else (k, b))
      else (prune (k ! jx) (prune i k), b))"
proof -
  have r: "(if x \<in> set xs \<and> cells x = {||} then remove1 x xs else xs) = prune x xs"
    for x :: sentence and xs
    by (simp add: prune_def remove1_idem)
  show ?thesis
    unfolding pair_step_def Let_def fst_conv snd_conv fcard_0_eq r reduce_def by simp
qed

lemma total_cells_prune: "total_cells (prune x k) \<le> total_cells k"
  using total_cells_remove1 [of x k] by (simp add: prune_def)

lemma pair_step_potential:
  assumes "jx < length (fst kb)"
  shows "potential (pair_step i jx kb) \<le> potential kb"
proof -
  obtain k b where kb: "kb = (k, b)" by (cases kb)
  let ?j = "k ! jx"
  consider (red) "cells i \<noteq> {||}" "cells i |\<subset>| cells ?j"
    | (keep) "cells i \<noteq> {||}" "cells ?j \<noteq> {||}" "\<not> cells i |\<subset>| cells ?j"
    | (rem) "\<not> (cells i \<noteq> {||} \<and> cells ?j \<noteq> {||})"
    by blast
  then show ?thesis
  proof cases
    case red
    then have ne: "cells ?j \<noteq> {||}" by auto
    have "fcard (cells (reduce i ?j)) < fcard (cells ?j)"
      using red by (simp add: reduce_def fcard_reduce)
    then have "total_cells (k[jx := reduce i ?j]) < total_cells k"
      using assms kb by (intro total_cells_update) simp_all
    then show ?thesis using red ne kb by (simp add: pair_step_eq potential_def)
  next
    case keep
    then show ?thesis using kb by (simp add: pair_step_eq)
  next
    case rem
    have "total_cells (prune ?j (prune i k)) \<le> total_cells k"
      using total_cells_prune [of ?j "prune i k"] total_cells_prune [of i k] by linarith
    moreover have "pair_step i jx kb = (prune ?j (prune i k), b)"
      using rem kb by (simp only: pair_step_eq if_False)
    ultimately show ?thesis using kb by (simp add: potential_def)
  qed
qed

lemma outer_loop_potential: "potential (outer_loop ix kb) \<le> potential kb"
proof (rule pass_invariant [where I = "\<lambda>kb'. potential kb' \<le> potential kb" and R = "\<lambda>_ _. True"])
  show "potential kb \<le> potential kb" by simp
next
  fix i jx kb'
  assume "potential kb' \<le> potential kb" and "jx < length (fst kb')"
  then show "potential (pair_step i jx kb') \<le> potential kb \<and> True"
    using pair_step_potential [of jx kb' i] by simp
qed simp

lemma pass_shrinks:
  assumes "\<not> snd (outer_loop 0 (k, True))"
  shows "total_cells (fst (outer_loop 0 (k, True))) < total_cells k"
  using outer_loop_potential [of 0 "(k, True)"] assms by (simp add: potential_def)

lemma knowledge_update_loop_run:
  assumes pass: "\<And>k. I k \<Longrightarrow> I (fst (outer_loop 0 (k, True)))"
    and init: "I (knowledge st)"
  shows "\<exists>k'. knowledge_update_loop st = Some (st\<lparr>knowledge := k'\<rparr>) \<and> I k'"
  using init
proof (induction "total_cells (knowledge st)" arbitrary: st rule: less_induct)
  case less
  let ?kb = "outer_loop 0 (knowledge st, True)"
  have I': "I (fst ?kb)" using less.prems by (rule pass)
  show ?case
  proof (cases "snd ?kb")
    case True
    then have "knowledge_update_loop st = Some (st\<lparr>knowledge := fst ?kb\<rparr>)"
      by (subst knowledge_update_loop.simps) (simp add: Let_def)
    then show ?thesis using I' by blast
  next
    case False
    let ?st = "st\<lparr>knowledge := fst ?kb\<rparr>"
    have "total_cells (knowledge ?st) < total_cells (knowledge st)"
      using pass_shrinks [OF False] by simp
    moreover have "I (knowledge ?st)" using I' by simp
    ultimately obtain k' where k': "knowledge_update_loop ?st = Some (?st\<lparr>knowledge := k'\<rparr>)" "I k'"
      using less.hyps [of ?st] by blast
    have "knowledge_update_loop st = knowledge_update_loop ?st"
      using False by (subst knowledge_update_loop.simps) (simp add: Let_def)
    then have "knowledge_update_loop st = Some (st\<lparr>knowledge := k'\<rparr>)"
      using k'(1) by simp
    then show ?thesis using k'(2) by blast
  qed
qed

lemma knowledge_update_loop_frame:
  "\<exists>k'. knowledge_update_loop st = Some (st\<lparr>knowledge := k'\<rparr>)"
  using knowledge_update_loop_run [where I = "\<lambda>_. True" and st = st] by blast

text \<open>
  C4: \<open>knowledge_update\<close> returns on every state, and a pass that makes the \<^verbatim>\<open>while\<close> loop
  repeat (it leaves \<^verbatim>\<open>breaker\<close> cleared) strictly lowers the number of cells over all
  sentences.
\<close>

theorem knowledge_update_terminates:
  "(\<exists>st'. knowledge_update_loop st = Some st')
   \<and> (\<not> snd (outer_loop 0 (knowledge st, True))
        \<longrightarrow> total_cells (fst (outer_loop 0 (knowledge st, True))) < total_cells (knowledge st))"
  using knowledge_update_loop_frame [of st] pass_shrinks [of "knowledge st"] by blast

theorem knowledge_update_terminates_witness:
  "(\<exists>st'. knowledge_update_loop
           ((init_ai 3 3)\<lparr>knowledge := [\<lparr>cells = {|(0, 0)|}, count = 1\<rparr>,
                                        \<lparr>cells = {|(0, 0), (0, 1)|}, count = 1\<rparr>]\<rparr>) = Some st')
   \<and> \<not> snd (outer_loop 0 ([\<lparr>cells = {|(0, 0)|}, count = 1\<rparr>,
                             \<lparr>cells = {|(0, 0), (0, 1)|}, count = 1\<rparr>], True))
   \<and> total_cells (fst (outer_loop 0 ([\<lparr>cells = {|(0, 0)|}, count = 1\<rparr>,
                             \<lparr>cells = {|(0, 0), (0, 1)|}, count = 1\<rparr>], True)))
       < total_cells [\<lparr>cells = {|(0, 0)|}, count = 1\<rparr>,
                      \<lparr>cells = {|(0, 0), (0, 1)|}, count = 1\<rparr>]"
proof -
  let ?k = "[\<lparr>cells = {|(0, 0)|}, count = 1\<rparr>, \<lparr>cells = {|(0::int, 0::int), (0, 1)|}, count = 1\<rparr>]"
  have n: "\<not> snd (outer_loop 0 (?k, True))" by code_simp
  show ?thesis
    using knowledge_update_terminates [of "(init_ai 3 3)\<lparr>knowledge := ?k\<rparr>"] n by simp
qed

text \<open>
  C10: \<open>knowledge_update\<close> returns a state whose \<open>moves_made\<close>, \<open>mines\<close> and \<open>safes\<close> (and
  board size) are those of the state it was called on: only the knowledge list changes.
\<close>

theorem knowledge_update_frame:
  "\<exists>st'. knowledge_update_loop st = Some st' \<and> moves_made st' = moves_made st
      \<and> mines st' = mines st \<and> safes st' = safes st
      \<and> height st' = height st \<and> width st' = width st"
proof -
  obtain k' where "knowledge_update_loop st = Some (st\<lparr>knowledge := k'\<rparr>)"
    using knowledge_update_loop_frame [of st] by blast
  then show ?thesis by simp
qed

section \<open>Engine-level mark_mine and mark_safe\<close>

text \<open>A call of the engine's \<^verbatim>\<open>mark_mine\<close> or \<^verbatim>\<open>mark_safe\<close>, and a sequence of them run
  from left to right.\<close>

datatype mark_call = Mark_mine cell | Mark_safe cell

fun do_mark :: "ai \<Rightarrow> mark_call \<Rightarrow> ai" where
  "do_mark st (Mark_mine c) = ai_mark_mine st c"
| "do_mark st (Mark_safe c) = ai_mark_safe st c"

text \<open>No sentence of the knowledge list holds a cell of \<open>mines\<close> or \<open>safes\<close>.\<close>

definition no_known_cells :: "ai \<Rightarrow> bool" where
  "no_known_cells st =
     (\<forall>s \<in> set (knowledge st). cells s |\<inter>| (mines st |\<union>| safes st) = {||})"

lemma cells_mark_mine: "cells (mark_mine s c) = cells s |-| {|c|}"
  by (auto simp: mark_mine_def)

lemma cells_mark_safe: "cells (mark_safe s c) = cells s |-| {|c|}"
  by (auto simp: mark_safe_def)

lemma no_known_cells_do_mark:
  assumes "no_known_cells st"
  shows "no_known_cells (do_mark st m)"
proof (cases m)
  case (Mark_mine c)
  show ?thesis
    using assms unfolding Mark_mine no_known_cells_def
    by (auto simp: ai_mark_mine_def cells_mark_mine)
next
  case (Mark_safe c)
  show ?thesis
    using assms unfolding Mark_safe no_known_cells_def
    by (auto simp: ai_mark_safe_def cells_mark_safe)
qed

lemma no_known_cells_marks:
  "no_known_cells st \<Longrightarrow> no_known_cells (foldl do_mark st ms)"
  by (induction ms arbitrary: st) (simp_all add: no_known_cells_do_mark)

text \<open>
  C6: from a state in which no sentence holds a cell of \<open>mines\<close> or \<open>safes\<close>, every sequence
  of engine-level \<open>mark_mine\<close> and \<open>mark_safe\<close> calls ends in such a state; each call adds the
  cell to its known set and leaves no sentence holding it.
\<close>

theorem marks_keep_sentences_unknown:
  "(no_known_cells st \<longrightarrow> no_known_cells (foldl do_mark st ms))
   \<and> mines (ai_mark_mine st c) = finsert c (mines st)
   \<and> safes (ai_mark_safe st c) = finsert c (safes st)
   \<and> (\<forall>s \<in> set (knowledge (ai_mark_mine st c)). c |\<notin>| cells s)
   \<and> (\<forall>s \<in> set (knowledge (ai_mark_safe st c)). c |\<notin>| cells s)"
  using no_known_cells_marks [of st ms]
  by (auto simp: ai_mark_mine_def ai_mark_safe_def cells_mark_mine cells_mark_safe)

theorem marks_keep_sentences_unknown_witness:
  "no_known_cells ((init_ai 2 2)\<lparr>knowledge := [\<lparr>cells = {|(0, 0), (0, 1), (1, 1)|}, count = 1\<rparr>]\<rparr>)
   \<and> no_known_cells
        (foldl do_mark ((init_ai 2 2)\<lparr>knowledge := [\<lparr>cells = {|(0, 0), (0, 1), (1, 1)|}, count = 1\<rparr>]\<rparr>)
           [Mark_mine (0, 0), Mark_safe (0, 1)])
   \<and> knowledge
        (foldl do_mark ((init_ai 2 2)\<lparr>knowledge := [\<lparr>cells = {|(0, 0), (0, 1), (1, 1)|}, count = 1\<rparr>]\<rparr>)
           [Mark_mine (0, 0), Mark_safe (0, 1)]) = [\<lparr>cells = {|(1, 1)|}, count = 0\<rparr>]"
proof -
  let ?st = "(init_ai 2 2)\<lparr>knowledge := [\<lparr>cells = {|(0, 0), (0, 1), (1, 1)|}, count = 1\<rparr>]\<rparr>"
  have a: "no_known_cells ?st" by code_simp
  have b: "knowledge (foldl do_mark ?st [Mark_mine (0, 0), Mark_safe (0, 1)])
      = [\<lparr>cells = {|(1, 1)|}, count = 0\<rparr>]"
    by code_simp
  show ?thesis
    using marks_keep_sentences_unknown [of ?st "[Mark_mine (0, 0), Mark_safe (0, 1)]" "(0, 0)"] a b
    by blast
qed

section \<open>make_safe_move\<close>

text \<open>
  C9: for every order in which the set \<open>safes\<close> is iterated, \<open>make_safe_move\<close> returns a cell
  of \<open>safes\<close> that is not in \<open>moves_made\<close> whenever one exists, returns \<open>None\<close> exactly when
  none exists, and leaves the state as it was.
\<close>

theorem make_safe_move_spec:
  assumes "set order = fset (safes st)"
  shows "((\<exists>c. c |\<in>| safes st \<and> c |\<notin>| moves_made st)
            \<longrightarrow> (\<exists>c. fst (make_safe_move order st) = Some c \<and> c |\<in>| safes st \<and> c |\<notin>| moves_made st))
         \<and> (fst (make_safe_move order st) = None
              \<longleftrightarrow> \<not> (\<exists>c. c |\<in>| safes st \<and> c |\<notin>| moves_made st))
         \<and> snd (make_safe_move order st) = st"
proof -
  let ?P = "\<lambda>move. move |\<notin>| moves_made st \<and> move |\<in>| safes st"
  have none: "find ?P order = None \<longleftrightarrow> \<not> (\<exists>c. c |\<in>| safes st \<and> c |\<notin>| moves_made st)"
    using assms by (auto simp: find_None_iff)
  have some: "find ?P order = Some c \<Longrightarrow> c |\<in>| safes st \<and> c |\<notin>| moves_made st" for c
    by (auto simp: find_Some_iff)
  have "\<exists>c. find ?P order = Some c \<and> c |\<in>| safes st \<and> c |\<notin>| moves_made st"
    if "\<exists>c. c |\<in>| safes st \<and> c |\<notin>| moves_made st"
  proof -
    from that none obtain c where "find ?P order = Some c" by (cases "find ?P order") auto
    then show ?thesis using some by blast
  qed
  then show ?thesis using none by (simp add: make_safe_move_def)
qed

theorem make_safe_move_spec_witness:
  "set [(0, 1), (0, 0)] = fset (safes ((init_ai 2 2)\<lparr>moves_made := {|(0, 0)|}, safes := {|(0, 0), (0, 1)|}\<rparr>))
   \<and> fst (make_safe_move [(0, 1), (0, 0)] ((init_ai 2 2)\<lparr>moves_made := {|(0, 0)|}, safes := {|(0, 0), (0, 1)|}\<rparr>))
       = Some (0, 1)
   \<and> snd (make_safe_move [(0, 1), (0, 0)] ((init_ai 2 2)\<lparr>moves_made := {|(0, 0)|}, safes := {|(0, 0), (0, 1)|}\<rparr>))
       = (init_ai 2 2)\<lparr>moves_made := {|(0, 0)|}, safes := {|(0, 0), (0, 1)|}\<rparr>"
proof -
  let ?st = "(init_ai 2 2)\<lparr>moves_made := {|(0, 0)|}, safes := {|(0, 0), (0, 1)|}\<rparr>"
  have h: "set [(0, 1), (0, 0)] = fset (safes ?st)" by (auto simp: init_ai_def)
  have v: "fst (make_safe_move [(0, 1), (0, 0)] ?st) = Some (0, 1)" by code_simp
  show ?thesis using make_safe_move_spec [OF h] h v by blast
qed

section \<open>The sentence built by add_knowledge\<close>

text \<open>The in-bounds neighbours of a cell on a board of the given height and width, as a
  set: the cells one step away in row and column, the cell itself left out.\<close>

definition in_bounds_neighbours :: "int \<Rightarrow> int \<Rightarrow> cell \<Rightarrow> cell set" where
  "in_bounds_neighbours h w c =
     {(i, j). \<bar>i - fst c\<bar> \<le> 1 \<and> \<bar>j - snd c\<bar> \<le> 1 \<and> (i, j) \<noteq> c
              \<and> 0 \<le> i \<and> i < h \<and> 0 \<le> j \<and> j < w}"

lemma set_range_int: "set (range_int a b) = {a..<b}"
  by (auto simp: range_int_def)

lemma fold_finsert_if:
  "x |\<in>| fold (\<lambda>j acc. if P j then finsert (f j) acc else acc) js acc
     \<longleftrightarrow> x |\<in>| acc \<or> (\<exists>j \<in> set js. P j \<and> x = f j)"
  by (induction js arbitrary: acc) auto

lemma fold_fold_finsert_if:
  "x |\<in>| fold (\<lambda>i acc. fold (\<lambda>j acc. if P i j then finsert (f i j) acc else acc) js acc) is acc
     \<longleftrightarrow> x |\<in>| acc \<or> (\<exists>i \<in> set is. \<exists>j \<in> set js. P i j \<and> x = f i j)"
proof (induction "is" arbitrary: acc)
  case Nil
  then show ?case by simp
next
  case (Cons i "is")
  show ?case
    unfolding fold_simps Cons.IH fold_finsert_if [of x "P i" "f i" js acc] by auto
qed

lemma fset_nearby_cells:
  "fset (nearby_cells st c) = in_bounds_neighbours (height st) (width st) c"
proof -
  have "x |\<in>| nearby_cells st c \<longleftrightarrow> x \<in> in_bounds_neighbours (height st) (width st) c" for x
  proof -
    obtain a b where x: "x = (a, b)" by (cases x)
    have "x |\<in>| nearby_cells st c \<longleftrightarrow>
        (\<exists>i \<in> {fst c - 1..<fst c + 2}. \<exists>j \<in> {snd c - 1..<snd c + 2}.
           (0 \<le> i \<and> i < height st \<and> 0 \<le> j \<and> j < width st \<and> (i, j) \<noteq> c) \<and> x = (i, j))"
      unfolding nearby_cells_def
      by (subst fold_fold_finsert_if
            [of x "\<lambda>i j. 0 \<le> i \<and> i < height st \<and> 0 \<le> j \<and> j < width st \<and> (i, j) \<noteq> c" Pair])
         (simp add: set_range_int)
    also have "\<dots> \<longleftrightarrow> x \<in> in_bounds_neighbours (height st) (width st) c"
      unfolding x in_bounds_neighbours_def by auto
    finally show ?thesis .
  qed
  then show ?thesis by auto
qed

lemma knowledge_extract_facts: "knowledge (extract_facts st) = knowledge st"
proof -
  have "knowledge (fold (\<lambda>s a. a\<lparr>safes := safes a |\<union>| known_safes s,
                                  mines := mines a |\<union>| known_mines s\<rparr>) xs a) = knowledge a"
    for xs a
    by (induction xs arbitrary: a) simp_all
  then show ?thesis by (simp add: extract_facts_def)
qed

lemma add_knowledge_expand:
  assumes N: "N = in_bounds_neighbours (height st) (width st) c"
    and U: "U = N - fset (moves_made st) - fset (mines st) - fset (safes st)"
    and st1: "st1 = ai_mark_safe (st\<lparr>moves_made := finsert c (moves_made st)\<rparr>) c"
  shows "\<exists>S. fset (cells S) = U \<and> count S = n - int (card (N \<inter> fset (mines st)))
           \<and> add_knowledge st c n =
               (if U \<noteq> {}
                then map_option extract_facts
                       (knowledge_update_loop (st1\<lparr>knowledge := knowledge st1 @ [S]\<rparr>))
                else Some (extract_facts st1))
           \<and> knowledge (extract_facts st1) = map (\<lambda>s. mark_safe s c) (knowledge st)"
proof -
  let ?nearby = "nearby_cells st1 c"
  let ?S = "\<lparr>cells = ?nearby |-| moves_made st1 |-| mines st1 |-| safes st1,
             count = n - int (fcard (?nearby |\<inter>| mines st1))\<rparr>"
  have dims: "height st1 = height st" "width st1 = width st"
    and sets: "moves_made st1 = finsert c (moves_made st)" "mines st1 = mines st"
      "safes st1 = finsert c (safes st)"
    and kn: "knowledge st1 = map (\<lambda>s. mark_safe s c) (knowledge st)"
    by (simp_all add: st1 ai_mark_safe_def)
  have nearby: "fset ?nearby = N"
    by (simp add: fset_nearby_cells dims N)
  have notin: "c \<notin> N"
    by (cases c) (simp add: N in_bounds_neighbours_def)
  have cellsS: "fset (cells ?S) = U"
    using notin by (auto simp: nearby sets U)
  have countS: "count ?S = n - int (card (N \<inter> fset (mines st)))"
    by (simp add: fcard.rep_eq nearby sets)
  have pos: "0 < fcard (cells ?S) \<longleftrightarrow> U \<noteq> {}"
    using cellsS by (metis bot_fset.rep_eq fcard_0_eq fset_inject gr0I less_numeral_extra(3))
  have "add_knowledge st c n =
      (if U \<noteq> {}
       then map_option extract_facts
              (knowledge_update_loop (st1\<lparr>knowledge := knowledge st1 @ [?S]\<rparr>))
       else Some (extract_facts st1))"
    using pos unfolding add_knowledge_def Let_def st1 [symmetric] by simp
  moreover have "knowledge (extract_facts st1) = map (\<lambda>s. mark_safe s c) (knowledge st)"
    by (simp add: knowledge_extract_facts kn)
  ultimately show ?thesis using cellsS countS by blast
qed

text \<open>
  C8: \<open>add_knowledge\<close> builds the sentence \<open>S\<close> whose cells are the in-bounds neighbours of
  the opened cell minus \<open>moves_made\<close>, \<open>mines\<close> and \<open>safes\<close>, and whose count is the reported
  count minus the number of neighbours in \<open>mines\<close>. When the cell set is non-empty \<open>S\<close> is
  appended and \<open>knowledge_update\<close> runs; when it is empty nothing is appended, and the
  knowledge list is the old one with the opened cell marked safe. (The opened cell is no
  neighbour of itself, so the sets before the call and the sets after the cell has been
  recorded give the same difference.)
\<close>

theorem add_knowledge_sentence:
  assumes N: "N = in_bounds_neighbours (height st) (width st) c"
    and U: "U = N - fset (moves_made st) - fset (mines st) - fset (safes st)"
    and st1: "st1 = ai_mark_safe (st\<lparr>moves_made := finsert c (moves_made st)\<rparr>) c"
  shows "\<exists>S. fset (cells S) = U \<and> count S = n - int (card (N \<inter> fset (mines st)))
           \<and> add_knowledge st c n =
               (if U \<noteq> {}
                then map_option extract_facts
                       (knowledge_update_loop (st1\<lparr>knowledge := knowledge st1 @ [S]\<rparr>))
                else Some (extract_facts st1))
           \<and> knowledge (extract_facts st1) = map (\<lambda>s. mark_safe s c) (knowledge st)"
  using assms by (rule add_knowledge_expand)

theorem add_knowledge_sentence_witness:
  "(\<exists>S. fset (cells S) = {(0, 1), (1, 0), (1, 1)} \<and> count S = 1
         \<and> add_knowledge (init_ai 3 3) (0, 0) 1
             = map_option extract_facts
                 (knowledge_update_loop
                    ((ai_mark_safe ((init_ai 3 3)\<lparr>moves_made := {|(0, 0)|}\<rparr>) (0, 0))\<lparr>knowledge := [S]\<rparr>)))"
proof -
  have N: "in_bounds_neighbours 3 3 (0, 0) = {(0, 1), (1, 0), (1, 1)}"
    unfolding in_bounds_neighbours_def by auto
  have U: "{(0, 1), (1, 0), (1, 1)} = in_bounds_neighbours 3 3 (0, 0)
             - fset (moves_made (init_ai 3 3)) - fset (mines (init_ai 3 3)) - fset (safes (init_ai 3 3))"
    by (simp add: N init_ai_def)
  have N': "in_bounds_neighbours 3 3 (0, 0)
      = in_bounds_neighbours (height (init_ai 3 3)) (width (init_ai 3 3)) (0, 0)"
    by (simp add: init_ai_def)
  show ?thesis
    using add_knowledge_sentence [OF N' U refl, of 1]
    by (simp add: N init_ai_def ai_mark_safe_def) blast
qed

section \<open>Known cells left in sentences by add_knowledge\<close>

text \<open>
  C1 (the code departs from the claim): the claim is that after \<open>add_knowledge\<close> no sentence
  holds a cell of \<open>mines\<close>, \<open>safes\<close> or \<open>moves_made\<close>. The last loop of \<open>add_knowledge\<close> merges
  the facts of the sentences into \<open>safes\<close> and \<open>mines\<close> without calling the engine's
  \<open>mark_safe\<close> or \<open>mark_mine\<close>, so the sentences keep the cells. On a fresh 8 by 8 board,
  opening the corner \<open>(0, 0)\<close> with count 0 leaves the sentence \<open>{(0,1), (1,0), (1,1)} = 0\<close> in
  the knowledge list while its three cells are in \<open>safes\<close>.
\<close>

theorem add_knowledge_leaves_known_cells:
  "map_option (\<lambda>st. (knowledge st, safes st, mines st, moves_made st))
     (add_knowledge (init_ai 8 8) (0, 0) 0)
   = Some ([\<lparr>cells = {|(0, 1), (1, 0), (1, 1)|}, count = 0\<rparr>],
           {|(0, 0), (0, 1), (1, 0), (1, 1)|}, {||}, {|(0, 0)|})"
  by code_simp

section \<open>A second run of knowledge_update\<close>

text \<open>
  C2 (the code departs from the claim): the claim is that a second run of \<open>knowledge_update\<close>
  right after a first one changes nothing. Removing a sentence from the list while the two
  \<^verbatim>\<open>for\<close> loops iterate over it makes both iterators skip the next sentence, and a removal
  does not clear \<^verbatim>\<open>breaker\<close>. In the state below the first run removes the empty sentence,
  never takes \<open>{(0,2), (1,2)} = 1\<close> as the outer sentence, and returns with it still a strict
  subset of \<open>{(0,2), (1,2), (2,2)} = 1\<close>; the second run reduces the larger sentence to
  \<open>{(2,2)} = 0\<close>. The state is the one in which the fourth call below runs
  \<open>knowledge_update\<close> (lemma \<open>second_run_state_reached\<close>: a 3 by 3 board with one mine at
  \<open>(1, 2)\<close>, cells opened in the order \<open>(0,0)\<close>, \<open>(0,1)\<close>, \<open>(1,0)\<close>, \<open>(1,1)\<close>).
\<close>

theorem knowledge_update_second_run_changes:
  "map_option knowledge
     (knowledge_update_loop
        \<lparr>height = 3, width = 3,
         moves_made = {|(0, 0), (0, 1), (1, 0), (1, 1)|},
         mines = {||},
         safes = {|(0, 0), (0, 1), (1, 0), (1, 1), (2, 0), (2, 1)|},
         knowledge = [\<lparr>cells = {||}, count = 0\<rparr>,
                      \<lparr>cells = {|(0, 2), (1, 2)|}, count = 1\<rparr>,
                      \<lparr>cells = {|(2, 0), (2, 1)|}, count = 0\<rparr>,
                      \<lparr>cells = {|(0, 2), (1, 2), (2, 2)|}, count = 1\<rparr>]\<rparr>)
   = Some [\<lparr>cells = {|(0, 2), (1, 2)|}, count = 1\<rparr>,
           \<lparr>cells = {|(2, 0), (2, 1)|}, count = 0\<rparr>,
           \<lparr>cells = {|(0, 2), (1, 2), (2, 2)|}, count = 1\<rparr>]
   \<and> map_option knowledge
       (knowledge_update_loop
          \<lparr>height = 3, width = 3,
           moves_made = {|(0, 0), (0, 1), (1, 0), (1, 1)|},
           mines = {||},
           safes = {|(0, 0), (0, 1), (1, 0), (1, 1), (2, 0), (2, 1)|},
           knowledge = [\<lparr>cells = {|(0, 2), (1, 2)|}, count = 1\<rparr>,
                        \<lparr>cells = {|(2, 0), (2, 1)|}, count = 0\<rparr>,
                        \<lparr>cells = {|(0, 2), (1, 2), (2, 2)|}, count = 1\<rparr>]\<rparr>)
     = Some [\<lparr>cells = {|(0, 2), (1, 2)|}, count = 1\<rparr>,
             \<lparr>cells = {|(2, 0), (2, 1)|}, count = 0\<rparr>,
             \<lparr>cells = {|(2, 2)|}, count = 0\<rparr>]"
  by code_simp

lemma second_run_state_reached:
  "Option.bind (add_knowledge (init_ai 3 3) (0, 0) 0) (\<lambda>s1.
   Option.bind (add_knowledge s1 (0, 1) 1) (\<lambda>s2.
   Option.bind (add_knowledge s2 (1, 0) 0) (\<lambda>s3.
   Option.bind (add_knowledge s3 (1, 1) 1) (\<lambda>s4.
   Option.bind (knowledge_update_loop s4) (\<lambda>s5. Some (knowledge s4, knowledge s5))))))
   = Some ([\<lparr>cells = {|(0, 2), (1, 2)|}, count = 1\<rparr>,
            \<lparr>cells = {|(2, 0), (2, 1)|}, count = 0\<rparr>,
            \<lparr>cells = {|(0, 2), (1, 2), (2, 2)|}, count = 1\<rparr>],
           [\<lparr>cells = {|(0, 2), (1, 2)|}, count = 1\<rparr>,
            \<lparr>cells = {|(2, 0), (2, 1)|}, count = 0\<rparr>,
            \<lparr>cells = {|(2, 2)|}, count = 0\<rparr>])"
  by code_simp

section \<open>The order of the sentences\<close>


text \<open>The sentences of a list that still have cells.\<close>

definition nonempty :: "sentence list \<Rightarrow> sentence list" where
  "nonempty k = filter (\<lambda>s. cells s \<noteq> {||}) k"

text \<open>What the extraction loop leaves in \<open>mines\<close> and \<open>safes\<close>.\<close>

lemma extract_facts_sets:
  "fset (mines (extract_facts st))
     = fset (mines st) \<union> (\<Union>s \<in> set (nonempty (knowledge st)). fset (known_mines s))"
  "fset (safes (extract_facts st))
     = fset (safes st) \<union> (\<Union>s \<in> set (nonempty (knowledge st)). fset (known_safes s))"
proof -
  let ?f = "\<lambda>s a. a\<lparr>safes := safes a |\<union>| known_safes s, mines := mines a |\<union>| known_mines s\<rparr>"
  have m: "fset (mines (fold ?f xs a)) = fset (mines a) \<union> (\<Union>s \<in> set xs. fset (known_mines s))"
    for xs a
    by (induction xs arbitrary: a) auto
  have s: "fset (safes (fold ?f xs a)) = fset (safes a) \<union> (\<Union>s \<in> set xs. fset (known_safes s))"
    for xs a
    by (induction xs arbitrary: a) auto
  have em: "(\<Union>s \<in> set xs. fset (known_mines s)) = (\<Union>s \<in> set (nonempty xs). fset (known_mines s))"
    for xs
    by (auto simp: nonempty_def known_mines_def split: if_splits)
  have es: "(\<Union>s \<in> set xs. fset (known_safes s)) = (\<Union>s \<in> set (nonempty xs). fset (known_safes s))"
    for xs
    by (auto simp: nonempty_def known_safes_def split: if_splits)
  show "fset (mines (extract_facts st))
     = fset (mines st) \<union> (\<Union>s \<in> set (nonempty (knowledge st)). fset (known_mines s))"
    by (simp only: extract_facts_def m em [of "knowledge st"])
  show "fset (safes (extract_facts st))
     = fset (safes st) \<union> (\<Union>s \<in> set (nonempty (knowledge st)). fset (known_safes s))"
    by (simp only: extract_facts_def s es [of "knowledge st"])
qed

subsection \<open>Lists of nested or disjoint sentences\<close>









































text \<open>
  Each hypothesis is needed. With an empty sentence in front, its removal makes the iterators
  skip \<open>{(0,0)} = 1\<close>, the pass ends with \<^verbatim>\<open>breaker\<close> set and \<open>{(0,0), (0,1)} = 1\<close> is never
  reduced; with the empty sentence last it is reduced and \<open>(0,1)\<close> is found safe.
\<close>

lemma empty_sentence_changes_known_safes:
  "map_option (\<lambda>r. (knowledge r, safes (extract_facts r)))
     (knowledge_update_loop
        ((init_ai 1 2)\<lparr>knowledge :=
           [\<lparr>cells = {||}, count = 0\<rparr>, \<lparr>cells = {|(0, 0)|}, count = 1\<rparr>,
            \<lparr>cells = {|(0, 0), (0, 1)|}, count = 1\<rparr>]\<rparr>))
     = Some ([\<lparr>cells = {|(0, 0)|}, count = 1\<rparr>, \<lparr>cells = {|(0, 0), (0, 1)|}, count = 1\<rparr>], {||})
   \<and> map_option (\<lambda>r. (knowledge r, safes (extract_facts r)))
     (knowledge_update_loop
        ((init_ai 1 2)\<lparr>knowledge :=
           [\<lparr>cells = {|(0, 0)|}, count = 1\<rparr>, \<lparr>cells = {|(0, 0), (0, 1)|}, count = 1\<rparr>,
            \<lparr>cells = {||}, count = 0\<rparr>]\<rparr>))
     = Some ([\<lparr>cells = {|(0, 0)|}, count = 1\<rparr>, \<lparr>cells = {|(0, 1)|}, count = 0\<rparr>], {|(0, 1)|})"
  by code_simp

text \<open>
  With counts that no weighting of the cells gives (\<open>{(0,0)} = 0\<close>, \<open>{(0,1)} = 0\<close> and
  \<open>{(0,0), (0,1)} = 1\<close>), the two-cell sentence is reduced by whichever one-cell sentence comes
  first, and the other cell is reported as a mine.
\<close>

lemma unweighted_counts_change_known_mines:
  "map_option (\<lambda>r. mines (extract_facts r))
     (knowledge_update_loop
        ((init_ai 1 2)\<lparr>knowledge :=
           [\<lparr>cells = {|(0, 0)|}, count = 0\<rparr>, \<lparr>cells = {|(0, 1)|}, count = 0\<rparr>,
            \<lparr>cells = {|(0, 0), (0, 1)|}, count = 1\<rparr>]\<rparr>))
     = Some {|(0, 1)|}
   \<and> map_option (\<lambda>r. mines (extract_facts r))
     (knowledge_update_loop
        ((init_ai 1 2)\<lparr>knowledge :=
           [\<lparr>cells = {|(0, 1)|}, count = 0\<rparr>, \<lparr>cells = {|(0, 0)|}, count = 0\<rparr>,
            \<lparr>cells = {|(0, 0), (0, 1)|}, count = 1\<rparr>]\<rparr>))
     = Some {|(0, 0)|}"
  by code_simp


section \<open>class Minesweeper: the game that feeds the engine\<close>

text \<open>
  The board is a list of rows of booleans. \<open>is_mine\<close> and \<open>nearby_mines\<close> are the methods of
  the source; \<open>is_mine\<close> is modelled for cells of the board (non-negative indices in range),
  where the Python index and \<open>!\<close> agree.
\<close>

record minesweeper =
  game_height :: int
  game_width :: int
  board :: "bool list list"

definition is_mine :: "minesweeper \<Rightarrow> cell \<Rightarrow> bool" where
  "is_mine g c = board g ! nat (fst c) ! nat (snd c)"

definition nearby_mines :: "minesweeper \<Rightarrow> cell \<Rightarrow> int" where
  "nearby_mines g c =
     fold (\<lambda>i cnt.
        fold (\<lambda>j cnt.
           if (i, j) = c then cnt
           else if 0 \<le> i \<and> i < game_height g \<and> 0 \<le> j \<and> j < game_width g
                then (if board g ! nat i ! nat j then cnt + 1 else cnt)
                else cnt)
          (range_int (snd c - 1) (snd c + 2)) cnt)
       (range_int (fst c - 1) (fst c + 2)) 0"

definition in_bounds :: "minesweeper \<Rightarrow> cell \<Rightarrow> bool" where
  "in_bounds g c \<longleftrightarrow> 0 \<le> fst c \<and> fst c < game_height g \<and> 0 \<le> snd c \<and> snd c < game_width g"

text \<open>The mined cells of the board, as a set.\<close>

definition mine_cells :: "minesweeper \<Rightarrow> cell set" where
  "mine_cells g = {c. in_bounds g c \<and> is_mine g c}"

lemma fold_count:
  "fold (\<lambda>j cnt. if P j then cnt + 1 else cnt) js (cnt :: int)
     = cnt + int (length (filter P js))"
  by (induction js arbitrary: cnt) simp_all

lemma fold_fold_count:
  "fold (\<lambda>i cnt. fold (\<lambda>j cnt. if Q i j then cnt + 1 else cnt) js cnt) is (cnt :: int)
     = cnt + int (length (filter (\<lambda>(i, j). Q i j) (List.product is js)))"
proof (induction "is" arbitrary: cnt)
  case Nil
  then show ?case by simp
next
  case (Cons i "is")
  let ?G = "\<lambda>i j cnt. if Q i j then cnt + 1 else (cnt :: int)"
  let ?F = "\<lambda>i cnt. fold (?G i) js cnt"
  let ?P = "\<lambda>(i, j). Q i j"
  have "?P \<circ> Pair i = Q i" by (simp add: fun_eq_iff)
  then have len: "length (filter ?P (List.product (i # is) js))
      = length (filter (Q i) js) + length (filter ?P (List.product is js))"
    by (simp add: filter_map)
  have "fold ?F (i # is) cnt = fold ?F is (fold (?G i) js cnt)" by simp
  also have "\<dots> = fold (?G i) js cnt + int (length (filter ?P (List.product is js)))"
    by (rule Cons.IH)
  also have "\<dots> = cnt + int (length (filter (Q i) js))
      + int (length (filter ?P (List.product is js)))"
    by (simp only: fold_count)
  also have "\<dots> = cnt + int (length (filter ?P (List.product (i # is) js)))"
    by (simp only: len of_nat_add add.assoc)
  finally show ?case .
qed

lemma nearby_mines_card:
  "nearby_mines g c
     = int (card (in_bounds_neighbours (game_height g) (game_width g) c \<inter> mine_cells g))"
proof -
  let ?Q = "\<lambda>i j. (i, j) \<noteq> c \<and> 0 \<le> i \<and> i < game_height g \<and> 0 \<le> j \<and> j < game_width g
                   \<and> board g ! nat i ! nat j"
  let ?is = "range_int (fst c - 1) (fst c + 2)"
  let ?js = "range_int (snd c - 1) (snd c + 2)"
  let ?xs = "filter (\<lambda>(i, j). ?Q i j) (List.product ?is ?js)"
  have body: "(\<lambda>i cnt. fold (\<lambda>j cnt.
           if (i, j) = c then cnt
           else if 0 \<le> i \<and> i < game_height g \<and> 0 \<le> j \<and> j < game_width g
                then (if board g ! nat i ! nat j then cnt + 1 else cnt)
                else cnt) ?js cnt)
      = (\<lambda>i cnt. fold (\<lambda>j cnt. if ?Q i j then cnt + 1 else cnt) ?js (cnt :: int))"
  proof (intro ext)
    fix i and cnt :: int
    have "(\<lambda>j cnt. if (i, j) = c then cnt
           else if 0 \<le> i \<and> i < game_height g \<and> 0 \<le> j \<and> j < game_width g
                then (if board g ! nat i ! nat j then cnt + 1 else cnt)
                else cnt)
        = (\<lambda>j cnt. if ?Q i j then cnt + 1 else (cnt :: int))"
      by (intro ext) simp
    then show "fold (\<lambda>j cnt. if (i, j) = c then cnt
           else if 0 \<le> i \<and> i < game_height g \<and> 0 \<le> j \<and> j < game_width g
                then (if board g ! nat i ! nat j then cnt + 1 else cnt)
                else cnt) ?js cnt
        = fold (\<lambda>j cnt. if ?Q i j then cnt + 1 else cnt) ?js cnt"
      by simp
  qed
  have "nearby_mines g c = int (length ?xs)"
    unfolding nearby_mines_def body by (simp add: fold_fold_count)
  also have "length ?xs = card (set ?xs)"
  proof -
    have "distinct ?xs"
      by (intro distinct_filter distinct_product) (simp_all add: range_int_def)
    then show ?thesis by (rule distinct_card [symmetric])
  qed
  also have "set ?xs = in_bounds_neighbours (game_height g) (game_width g) c \<inter> mine_cells g"
    by (auto simp: set_range_int in_bounds_neighbours_def mine_cells_def in_bounds_def is_mine_def)
  finally show ?thesis .
qed


section \<open>Soundness of the engine against the board\<close>

text \<open>A call of the engine, and a sequence of calls run from left to right.\<close>

datatype call = Add_knowledge cell int | Mark mark_call

fun do_call :: "ai \<Rightarrow> call \<Rightarrow> ai option" where
  "do_call st (Add_knowledge c n) = add_knowledge st c n"
| "do_call st (Mark m) = Some (do_mark st m)"

fun run_calls :: "ai \<Rightarrow> call list \<Rightarrow> ai option" where
  "run_calls st [] = Some st"
| "run_calls st (x # xs) = Option.bind (do_call st x) (\<lambda>st'. run_calls st' xs)"

text \<open>
  A call is consistent with the game when it is what the game's runner passes: an opened
  cell is a cell of the board that holds no mine, reported with \<open>nearby_mines\<close>; a cell
  marked as a mine holds one, and a cell marked safe holds none.
\<close>

fun consistent :: "minesweeper \<Rightarrow> call \<Rightarrow> bool" where
  "consistent g (Add_knowledge c n) \<longleftrightarrow> in_bounds g c \<and> \<not> is_mine g c \<and> n = nearby_mines g c"
| "consistent g (Mark (Mark_mine c)) \<longleftrightarrow> in_bounds g c \<and> is_mine g c"
| "consistent g (Mark (Mark_safe c)) \<longleftrightarrow> in_bounds g c \<and> \<not> is_mine g c"

text \<open>A sentence is true of the board when its count is the number of its cells that are
  mined; the engine is sound when all it holds is true of the board.\<close>

definition true_of :: "minesweeper \<Rightarrow> sentence \<Rightarrow> bool" where
  "true_of g s \<longleftrightarrow> count s = int (card (fset (cells s) \<inter> mine_cells g))"

definition sound :: "minesweeper \<Rightarrow> ai \<Rightarrow> bool" where
  "sound g st \<longleftrightarrow>
     height st = game_height g \<and> width st = game_width g
     \<and> fset (mines st) \<subseteq> mine_cells g
     \<and> fset (safes st) \<inter> mine_cells g = {}
     \<and> fset (moves_made st) \<inter> mine_cells g = {}
     \<and> (\<forall>s \<in> set (knowledge st). true_of g s)"

lemma card_Int_Diff:
  assumes "finite B" and "A \<subseteq> B"
  shows "int (card ((B - A) \<inter> M)) = int (card (B \<inter> M)) - int (card (A \<inter> M))"
proof -
  have "(B - A) \<inter> M = (B \<inter> M) - (A \<inter> M)" by auto
  moreover have "A \<inter> M \<subseteq> B \<inter> M" using assms by auto
  moreover have "finite (A \<inter> M)" "finite (B \<inter> M)"
    using assms by (auto intro: finite_subset)
  ultimately show ?thesis
    by (simp add: card_Diff_subset card_mono)
qed

lemma true_of_reduce:
  assumes "true_of g i" and "true_of g j" and "cells i |\<subset>| cells j"
  shows "true_of g (reduce i j)"
proof -
  have sub: "fset (cells i) \<subseteq> fset (cells j)" using assms(3) by auto
  have "int (card (fset (cells j |-| cells i) \<inter> mine_cells g))
      = int (card (fset (cells j) \<inter> mine_cells g)) - int (card (fset (cells i) \<inter> mine_cells g))"
    using card_Int_Diff [OF _ sub, of "mine_cells g"] by simp
  then show ?thesis using assms(1,2) by (simp add: true_of_def reduce_def)
qed

lemma true_of_mark_safe:
  assumes "true_of g s" and "c \<notin> mine_cells g"
  shows "true_of g (mark_safe s c)"
proof -
  have "fset (cells s |-| {|c|}) \<inter> mine_cells g = fset (cells s) \<inter> mine_cells g"
    using assms(2) by auto
  then show ?thesis using assms(1) by (simp add: true_of_def mark_safe_def)
qed

lemma true_of_mark_mine:
  assumes "true_of g s" and "c \<in> mine_cells g"
  shows "true_of g (mark_mine s c)"
proof (cases "c |\<in>| cells s")
  case True
  have "int (card (fset (cells s |-| {|c|}) \<inter> mine_cells g))
      = int (card (fset (cells s) \<inter> mine_cells g)) - int (card (fset {|c|} \<inter> mine_cells g))"
    using card_Int_Diff [of "fset (cells s)" "fset {|c|}" "mine_cells g"] True by simp
  moreover have "fset {|c|} \<inter> mine_cells g = {c}" using assms(2) by simp
  ultimately show ?thesis using assms(1) True by (simp add: true_of_def mark_mine_def)
next
  case False
  then show ?thesis using assms(1) by (simp add: mark_mine_def)
qed

lemma true_of_known:
  assumes "true_of g s"
  shows "fset (known_mines s) \<subseteq> mine_cells g" and "fset (known_safes s) \<inter> mine_cells g = {}"
proof -
  let ?C = "fset (cells s)" and ?M = "mine_cells g"
  have fin: "finite ?C" by simp
  show "fset (known_mines s) \<subseteq> ?M"
  proof (cases "int (fcard (cells s)) = count s \<and> count s \<noteq> 0")
    case True
    then have "card (?C \<inter> ?M) = card ?C"
      using assms by (simp add: true_of_def fcard.rep_eq)
    then have "?C \<inter> ?M = ?C" using fin by (intro card_subset_eq) auto
    then show ?thesis using True by (auto simp: known_mines_def)
  next
    case False
    then show ?thesis by (auto simp: known_mines_def)
  qed
  show "fset (known_safes s) \<inter> ?M = {}"
  proof (cases "count s = 0")
    case True
    then have "card (?C \<inter> ?M) = 0" using assms by (simp add: true_of_def)
    then have "?C \<inter> ?M = {}" using fin by simp
    then show ?thesis using True by (simp add: known_safes_def)
  next
    case False
    then show ?thesis by (simp add: known_safes_def)
  qed
qed

lemma set_prune: "set (prune x k) \<subseteq> set k"
  using set_remove1_subset [of x k] by (simp add: prune_def)

lemma pair_step_true_of:
  assumes all: "\<forall>s \<in> set (fst kb). true_of g s" and i: "true_of g i" and jx: "jx < length (fst kb)"
  shows "\<forall>s \<in> set (fst (pair_step i jx kb)). true_of g s"
proof -
  obtain k b where kb: "kb = (k, b)" by (cases kb)
  let ?j = "k ! jx"
  have j: "true_of g ?j" using all jx kb by simp
  consider (red) "cells i \<noteq> {||}" "cells ?j \<noteq> {||}" "cells i |\<subset>| cells ?j"
    | (keep) "cells i \<noteq> {||}" "cells ?j \<noteq> {||}" "\<not> cells i |\<subset>| cells ?j"
    | (rem) "\<not> (cells i \<noteq> {||} \<and> cells ?j \<noteq> {||})"
    by blast
  then show ?thesis
  proof cases
    case red
    have "true_of g (reduce i ?j)" using i j red(3) by (rule true_of_reduce)
    moreover have "set (k[jx := reduce i ?j]) \<subseteq> insert (reduce i ?j) (set k)"
      by (rule set_update_subset_insert)
    ultimately have "\<forall>s \<in> set (k[jx := reduce i ?j]). true_of g s"
      using all kb by auto
    then show ?thesis using red kb by (simp add: pair_step_eq)
  next
    case keep
    then show ?thesis using all kb by (simp add: pair_step_eq)
  next
    case rem
    have "pair_step i jx kb = (prune ?j (prune i k), b)"
      using rem kb by (simp only: pair_step_eq if_False)
    moreover have "set (prune ?j (prune i k)) \<subseteq> set k"
      using set_prune [of ?j "prune i k"] set_prune [of i k] by blast
    ultimately show ?thesis using all kb by auto
  qed
qed

lemma outer_loop_true_of:
  assumes "\<forall>s \<in> set k. true_of g s"
  shows "\<forall>s \<in> set (fst (outer_loop ix (k, b))). true_of g s"
proof (rule pass_invariant
    [where I = "\<lambda>kb. \<forall>s \<in> set (fst kb). true_of g s" and R = "\<lambda>i kb. true_of g i"])
  show "\<forall>s \<in> set (fst (k, b)). true_of g s" using assms by simp
next
  fix ix and kb :: "sentence list \<times> bool"
  assume "\<forall>s \<in> set (fst kb). true_of g s" and "ix < length (fst kb)"
  then show "true_of g (fst kb ! ix)" by simp
next
  fix i jx and kb :: "sentence list \<times> bool"
  assume "\<forall>s \<in> set (fst kb). true_of g s" and "true_of g i" and "jx < length (fst kb)"
  then show "(\<forall>s \<in> set (fst (pair_step i jx kb)). true_of g s) \<and> true_of g i"
    using pair_step_true_of [of kb g i jx] by simp
qed

lemma knowledge_update_loop_sound:
  assumes "sound g st"
  shows "\<exists>st'. knowledge_update_loop st = Some st' \<and> sound g st'"
proof -
  have "\<exists>k'. knowledge_update_loop st = Some (st\<lparr>knowledge := k'\<rparr>)
          \<and> (\<forall>s \<in> set k'. true_of g s)"
  proof (rule knowledge_update_loop_run [where I = "\<lambda>k. \<forall>s \<in> set k. true_of g s"])
    fix k
    assume "\<forall>s \<in> set k. true_of g s"
    then show "\<forall>s \<in> set (fst (outer_loop 0 (k, True))). true_of g s"
      by (rule outer_loop_true_of)
  next
    show "\<forall>s \<in> set (knowledge st). true_of g s" using assms by (simp add: sound_def)
  qed
  then obtain k' where "knowledge_update_loop st = Some (st\<lparr>knowledge := k'\<rparr>)"
      "\<forall>s \<in> set k'. true_of g s"
    by blast
  moreover have "sound g (st\<lparr>knowledge := k'\<rparr>)"
    using assms calculation(2) by (simp add: sound_def)
  ultimately show ?thesis by blast
qed

lemma extract_facts_frame:
  "moves_made (extract_facts st) = moves_made st"
  "height (extract_facts st) = height st"
  "width (extract_facts st) = width st"
proof -
  let ?f = "\<lambda>s a. a\<lparr>safes := safes a |\<union>| known_safes s, mines := mines a |\<union>| known_mines s\<rparr>"
  have "moves_made (fold ?f xs a) = moves_made a \<and> height (fold ?f xs a) = height a
      \<and> width (fold ?f xs a) = width a" for xs and a :: ai
    by (induction xs arbitrary: a) simp_all
  then show "moves_made (extract_facts st) = moves_made st"
    "height (extract_facts st) = height st" "width (extract_facts st) = width st"
    by (simp_all add: extract_facts_def)
qed

lemma extract_facts_sound:
  assumes "sound g st"
  shows "sound g (extract_facts st)"
proof -
  have all: "\<forall>s \<in> set (knowledge st). true_of g s" using assms by (simp add: sound_def)
  have ne: "set (nonempty (knowledge st)) \<subseteq> set (knowledge st)" by (simp add: nonempty_def)
  have "fset (mines (extract_facts st)) \<subseteq> mine_cells g"
    using assms all ne true_of_known(1) [of g] unfolding extract_facts_sets sound_def by blast
  moreover have "fset (safes (extract_facts st)) \<inter> mine_cells g = {}"
    using assms all ne true_of_known(2) [of g] unfolding extract_facts_sets sound_def by blast
  ultimately show ?thesis
    using assms by (simp add: sound_def extract_facts_frame knowledge_extract_facts)
qed

lemma in_mine_cells: "in_bounds g c \<Longrightarrow> c \<in> mine_cells g \<longleftrightarrow> is_mine g c"
  by (simp add: mine_cells_def)

lemma do_mark_sound:
  assumes "sound g st" and "consistent g (Mark m)"
  shows "sound g (do_mark st m)"
proof (cases m)
  case (Mark_mine c)
  then have "c \<in> mine_cells g" using assms(2) by (simp add: in_mine_cells)
  then show ?thesis
    using assms(1) unfolding Mark_mine
    by (auto simp: sound_def ai_mark_mine_def intro: true_of_mark_mine)
next
  case (Mark_safe c)
  then have "c \<notin> mine_cells g" using assms(2) by (simp add: in_mine_cells)
  then show ?thesis
    using assms(1) unfolding Mark_safe
    by (auto simp: sound_def ai_mark_safe_def intro: true_of_mark_safe)
qed


lemma add_knowledge_sound:
  assumes snd: "sound g st" and inb: "in_bounds g c" and safe: "\<not> is_mine g c"
  shows "\<exists>st'. add_knowledge st c (nearby_mines g c) = Some st' \<and> sound g st'"
proof -
  let ?M = "mine_cells g"
  let ?N = "in_bounds_neighbours (height st) (width st) c"
  let ?U = "?N - fset (moves_made st) - fset (mines st) - fset (safes st)"
  let ?st0 = "st\<lparr>moves_made := finsert c (moves_made st)\<rparr>"
  let ?st1 = "ai_mark_safe ?st0 c"
  have cM: "c \<notin> ?M" using inb safe by (simp add: in_mine_cells)
  have "sound g ?st0" using snd cM by (simp add: sound_def)
  then have s1: "sound g ?st1"
    using do_mark_sound [of g ?st0 "Mark_safe c"] inb safe by simp
  obtain S where S: "fset (cells S) = ?U"
      "count S = nearby_mines g c - int (card (?N \<inter> fset (mines st)))"
      "add_knowledge st c (nearby_mines g c) =
         (if ?U \<noteq> {}
          then map_option extract_facts
                 (knowledge_update_loop (?st1\<lparr>knowledge := knowledge ?st1 @ [S]\<rparr>))
          else Some (extract_facts ?st1))"
    using add_knowledge_expand [OF refl refl refl, of st c "nearby_mines g c"] by blast
  have dims: "height st = game_height g" "width st = game_width g"
    and mines: "fset (mines st) \<subseteq> ?M"
    and others: "fset (safes st) \<inter> ?M = {}" "fset (moves_made st) \<inter> ?M = {}"
    using snd by (simp_all add: sound_def)
  have finN: "finite ?N" using fset_nearby_cells [of st c, symmetric] by simp
  have "?U \<inter> ?M = (?N - ?N \<inter> fset (mines st)) \<inter> ?M" using others by auto
  moreover have "?N \<inter> fset (mines st) \<inter> ?M = ?N \<inter> fset (mines st)" using mines by auto
  ultimately have "int (card (?U \<inter> ?M))
      = int (card (?N \<inter> ?M)) - int (card (?N \<inter> fset (mines st)))"
    using card_Int_Diff [OF finN, of "?N \<inter> fset (mines st)" ?M] by simp
  then have trueS: "true_of g S"
    using S(1,2) by (simp add: true_of_def nearby_mines_card dims)
  show ?thesis
  proof (cases "?U = {}")
    case True
    then have "add_knowledge st c (nearby_mines g c) = Some (extract_facts ?st1)"
      using S(3) by simp
    then show ?thesis using extract_facts_sound [OF s1] by blast
  next
    case False
    let ?st2 = "?st1\<lparr>knowledge := knowledge ?st1 @ [S]\<rparr>"
    have "sound g ?st2" using s1 trueS by (simp add: sound_def)
    then obtain st3 where st3: "knowledge_update_loop ?st2 = Some st3" "sound g st3"
      using knowledge_update_loop_sound by blast
    have "add_knowledge st c (nearby_mines g c) = Some (extract_facts st3)"
      using S(3) False st3(1) by simp
    then show ?thesis using extract_facts_sound [OF st3(2)] by blast
  qed
qed

lemma do_call_sound:
  assumes "sound g st" and "consistent g x"
  shows "\<exists>st'. do_call st x = Some st' \<and> sound g st'"
proof (cases x)
  case (Add_knowledge c n)
  then show ?thesis using assms add_knowledge_sound [of g st c] by simp
next
  case (Mark m)
  then show ?thesis using assms do_mark_sound [of g st m] by simp
qed

lemma run_calls_sound:
  assumes "sound g st" and "list_all (consistent g) xs"
  shows "\<exists>st'. run_calls st xs = Some st' \<and> sound g st'"
  using assms
proof (induction xs arbitrary: st)
  case Nil
  then show ?case by simp
next
  case (Cons x xs)
  then obtain st1 where st1: "do_call st x = Some st1" "sound g st1"
    using do_call_sound [of g st x] by auto
  then obtain st' where "run_calls st1 xs = Some st'" "sound g st'"
    using Cons.IH [of st1] Cons.prems(2) by auto
  then show ?case using st1(1) by simp
qed

lemma init_ai_sound: "sound g (init_ai (game_height g) (game_width g))"
  by (simp add: sound_def init_ai_def)

lemma sound_disjoint: "sound g st \<Longrightarrow> mines st |\<inter>| safes st = {||}"
  by (auto simp: sound_def)

text \<open>
  C5: from the initial state of an engine made for the board of a game, every sequence of
  \<open>add_knowledge\<close>, \<open>mark_mine\<close> and \<open>mark_safe\<close> calls that is consistent with the game returns,
  and in the state it reaches no cell is both in \<open>mines\<close> and in \<open>safes\<close>.
\<close>

theorem mines_safes_disjoint:
  assumes "list_all (consistent g) calls"
  shows "\<exists>st. run_calls (init_ai (game_height g) (game_width g)) calls = Some st
           \<and> mines st |\<inter>| safes st = {||}"
proof -
  obtain st where "run_calls (init_ai (game_height g) (game_width g)) calls = Some st"
      "sound g st"
    using run_calls_sound [OF init_ai_sound assms] by blast
  then show ?thesis using sound_disjoint by blast
qed

theorem mines_safes_disjoint_witness:
  "list_all (consistent \<lparr>game_height = 2, game_width = 2, board = [[False, False], [False, True]]\<rparr>)
     [Add_knowledge (0, 0) 1, Mark (Mark_mine (1, 1)), Add_knowledge (0, 1) 1,
      Mark (Mark_safe (1, 0))]
   \<and> (\<exists>st. run_calls (init_ai 2 2)
             [Add_knowledge (0, 0) 1, Mark (Mark_mine (1, 1)), Add_knowledge (0, 1) 1,
              Mark (Mark_safe (1, 0))] = Some st
         \<and> mines st |\<inter>| safes st = {||})"
proof -
  let ?g = "\<lparr>game_height = 2, game_width = 2, board = [[False, False], [False, True]]\<rparr>"
  let ?calls = "[Add_knowledge (0, 0) 1, Mark (Mark_mine (1, 1)), Add_knowledge (0, 1) 1,
                 Mark (Mark_safe (1, 0))]"
  have c: "list_all (consistent ?g) ?calls" by code_simp
  have r: "\<exists>st. run_calls (init_ai (game_height ?g) (game_width ?g)) ?calls = Some st
      \<and> mines st |\<inter>| safes st = {||}"
    using c by (rule mines_safes_disjoint)
  have d: "game_height ?g = 2" "game_width ?g = 2" by simp_all
  show ?thesis using c r unfolding d by (rule conjI)
qed

end
